theory Spec2Isabelle
  imports Main
begin

section \<open>Strings, character classes and the Python primitives the code uses\<close>

text \<open>
  Python strings are modelled as \<open>string\<close> (a list of 8-bit characters), which covers the
  ASCII text the remote API and the URL lists carry. On that range the regular-expression
  class \<open>\d\<close> is exactly \<open>[0-9]\<close>.
\<close>

datatype py_error =
    ValueError | KeyError | IndexError | ZeroDivisionError | FileNotFoundError | EmptyDataError
  | SystemExit | KeysExhausted | Propagated

definition is_digit :: "char \<Rightarrow> bool" where
  "is_digit c = (48 \<le> (of_char c :: nat) \<and> (of_char c :: nat) \<le> 57)"

text \<open>The class \<open>[a-zA-Z0-9_-]\<close> of the video and playlist identifier patterns.\<close>

definition is_id_char :: "char \<Rightarrow> bool" where
  "is_id_char c =
     (let n = (of_char c :: nat)
      in (97 \<le> n \<and> n \<le> 122) \<or> (65 \<le> n \<and> n \<le> 90) \<or> (48 \<le> n \<and> n \<le> 57)
         \<or> c = CHR ''_'' \<or> c = CHR ''-'')"

text \<open>
  \<open>int(s)\<close> on a string: the decimal value of a non-empty run of digits (signs, blanks
  and underscores never reach it from the patterns below). CPython refuses to convert a
  string of more than \<open>sys.int_max_str_digits\<close> digits, 4300 by default, leading zeros
  counted, and raises \<open>ValueError\<close>, as it does for a string that is not a number.
\<close>

definition dec_val :: "string \<Rightarrow> int" where
  "dec_val ds = foldl (\<lambda>acc c. 10 * acc + (int (of_char c) - 48)) 0 ds"

definition int_max_str_digits :: nat where
  "int_max_str_digits = 4300"

definition py_int :: "string \<Rightarrow> py_error + int" where
  "py_int s =
     (if s \<noteq> [] \<and> (\<forall>c \<in> set s. is_digit c) \<and> length s \<le> int_max_str_digits
      then Inr (dec_val s) else Inl ValueError)"

section \<open>Duration parsing (YouTubeMetadataExtractor.parse_duration)\<close>

text \<open>
  One optional group \<open>(?:(\d+)X)?\<close> of the pattern
  \<open>PT(?:(\d+)H)?(?:(\d+)M)?(?:(\d+)S)?\<close>, tried at the start of \<open>s\<close>: the group matches
  exactly when the maximal run of digits is non-empty and followed by the letter \<open>X\<close>
  (a shorter run is followed by a digit, so backtracking finds nothing else); the
  greedy \<open>?\<close> takes the match whenever there is one, since the rest of the pattern can
  always match the empty string. The result is the captured group (\<open>None\<close> when the
  group did not take part) and the text left after it.
\<close>

definition opt_group :: "char \<Rightarrow> string \<Rightarrow> string option \<times> string" where
  "opt_group x s =
     (let ds = takeWhile is_digit s; rest = dropWhile is_digit s
      in case rest of
           [] \<Rightarrow> (None, s)
         | c # rest' \<Rightarrow> if ds \<noteq> [] \<and> c = x then (Some ds, rest') else (None, s))"

text \<open>\<open>int(match.group(i)) if match.group(i) else 0\<close>.\<close>

definition group_int :: "string option \<Rightarrow> py_error + int" where
  "group_int g = (case g of None \<Rightarrow> Inr 0 | Some ds \<Rightarrow> if ds = [] then Inr 0 else py_int ds)"

text \<open>
  \<open>parse_duration\<close>: the argument is \<open>None\<close> when the field is missing. \<open>re.match\<close>
  anchors the pattern at the start of the string only.
\<close>

definition parse_duration :: "string option \<Rightarrow> py_error + int" where
  "parse_duration duration =
     (case duration of
        None \<Rightarrow> Inr 0
      | Some d \<Rightarrow>
          if d = [] then Inr 0
          else (case d of
                  p # t # r0 \<Rightarrow>
                    if p = CHR ''P'' \<and> t = CHR ''T'' then
                      (let (g1, r1) = opt_group CHR ''H'' r0;
                           (g2, r2) = opt_group CHR ''M'' r1;
                           (g3, r3) = opt_group CHR ''S'' r2
                       in case group_int g1 of
                            Inl e \<Rightarrow> Inl e
                          | Inr hours \<Rightarrow>
                              (case group_int g2 of
                                 Inl e \<Rightarrow> Inl e
                               | Inr minutes \<Rightarrow>
                                   (case group_int g3 of
                                      Inl e \<Rightarrow> Inl e
                                    | Inr seconds \<Rightarrow> Inr (hours * 3600 + minutes * 60 + seconds))))
                    else Inr 0
                | _ \<Rightarrow> Inr 0))"

text \<open>
  \<open>vdata.parse_duration\<close>: \<open>int(isodate.parse_duration(duration).total_seconds())\<close> inside
  \<open>try\<close>, with \<open>except Exception: return 0\<close>. The library \<open>isodate\<close> is not part of the
  repository: \<open>isodate_seconds\<close> stands for what the expression does on a string (a number
  of seconds, or an exception). A missing duration makes the library raise as well.
\<close>

definition vdata_parse_duration :: "(string \<Rightarrow> py_error + int) \<Rightarrow> string option \<Rightarrow> int" where
  "vdata_parse_duration isodate_seconds duration =
     (case duration of
        None \<Rightarrow> 0
      | Some d \<Rightarrow> (case isodate_seconds d of Inl e \<Rightarrow> 0 | Inr n \<Rightarrow> n))"

text \<open>
  Durations of the form \<open>PT#H#M#S\<close>, as the specification writes them: each of the three
  components is either left out (\<open>None\<close>) or a run of digits followed by its letter.
  \<open>digit_run\<close> is the form of a component, \<open>field_ok\<close> adds that the run is short enough
  for \<open>int\<close>.
\<close>

fun component :: "string option \<Rightarrow> char \<Rightarrow> string" where
  "component None x = []"
| "component (Some ds) x = ds @ [x]"

fun digit_run :: "string option \<Rightarrow> bool" where
  "digit_run None = True"
| "digit_run (Some ds) = (ds \<noteq> [] \<and> list_all is_digit ds)"

fun field_ok :: "string option \<Rightarrow> bool" where
  "field_ok None = True"
| "field_ok (Some ds) = (ds \<noteq> [] \<and> list_all is_digit ds \<and> length ds \<le> int_max_str_digits)"

fun field_val :: "string option \<Rightarrow> int" where
  "field_val None = 0"
| "field_val (Some ds) = dec_val ds"

definition iso_duration :: "string option \<Rightarrow> string option \<Rightarrow> string option \<Rightarrow> string" where
  "iso_duration h m s =
     ''PT'' @ component h CHR ''H'' @ component m CHR ''M'' @ component s CHR ''S''"

text \<open>
  Text after a duration continues it when it starts with a further component: a run of
  digits followed by one of the letters that may still come. After the seconds nothing
  may come; after the minutes only \<open>S\<close>; after the hours \<open>M\<close> or \<open>S\<close>; after \<open>PT\<close> alone
  any of the three.
\<close>

definition later_letters :: "string option \<Rightarrow> string option \<Rightarrow> string option \<Rightarrow> string" where
  "later_letters h m s =
     (if s \<noteq> None then []
      else if m \<noteq> None then ''S''
      else if h \<noteq> None then ''MS''
      else ''HMS'')"

definition continues_with :: "string \<Rightarrow> string \<Rightarrow> bool" where
  "continues_with letters t =
     (takeWhile is_digit t \<noteq> []
      \<and> (case dropWhile is_digit t of [] \<Rightarrow> False | c # rest \<Rightarrow> c \<in> set letters))"

section \<open>Credential rotation\<close>

text \<open>
  The extractor object of \<open>YouTubeMetadataExtractor.py\<close>: the credential pool, the cursor
  and the API session, represented by the developer key it was built with.
\<close>

record extractor =
  api_keys :: "string list"
  current_key_index :: nat
  youtube :: string

text \<open>
  \<open>YouTubeMetadataExtractor.switch_api_key\<close>: the cursor advances cyclically; a wrap to
  position 0 calls \<open>exit(1)\<close>, otherwise the session is rebuilt with the new key. The
  modulus by the length of an empty pool raises \<open>ZeroDivisionError\<close>.
\<close>

definition switch_api_key :: "extractor \<Rightarrow> py_error + extractor" where
  "switch_api_key e =
     (if api_keys e = [] then Inl ZeroDivisionError
      else let i = (current_key_index e + 1) mod length (api_keys e)
           in if i = 0 then Inl SystemExit
              else Inr (e\<lparr>current_key_index := i, youtube := api_keys e ! i\<rparr>))"

text \<open>
  A run of \<open>k\<close> consecutive quota-exceeded responses, each answered by one call of
  \<open>switch_api_key\<close>: the number of rotations completed, and the state or the error that
  ended the run.
\<close>

fun quota_run :: "nat \<Rightarrow> extractor \<Rightarrow> nat \<times> (py_error + extractor)" where
  "quota_run 0 e = (0, Inr e)"
| "quota_run (Suc k) e =
     (case switch_api_key e of
        Inl err \<Rightarrow> (0, Inl err)
      | Inr e' \<Rightarrow> (let (n, r) = quota_run k e' in (Suc n, r)))"

text \<open>
  \<open>vdata.switch_api_key\<close>: the module-level cursor \<open>current_key_index\<close> (here \<open>key_index\<close>)
  over \<open>API_KEYS\<close>. There is no test for
  the wrap.
\<close>

definition vdata_switch_api_key :: "string list \<Rightarrow> nat \<Rightarrow> py_error + nat" where
  "vdata_switch_api_key API_KEYS key_index =
     (if API_KEYS = [] then Inl ZeroDivisionError
      else Inr ((key_index + 1) mod length API_KEYS))"

fun vdata_quota_run :: "string list \<Rightarrow> nat \<Rightarrow> nat \<Rightarrow> nat \<times> (py_error + nat)" where
  "vdata_quota_run API_KEYS 0 i = (0, Inr i)"
| "vdata_quota_run API_KEYS (Suc k) i =
     (case vdata_switch_api_key API_KEYS i of
        Inl err \<Rightarrow> (0, Inl err)
      | Inr i' \<Rightarrow> (let (n, r) = vdata_quota_run API_KEYS k i' in (Suc n, r)))"

text \<open>
  \<open>test/vdata_old.switch_api_key\<close>: the earlier module; a wrap to position 0 raises
  \<open>Exception("All API keys have been exhausted.")\<close>.
\<close>

definition vdata_old_switch_api_key :: "string list \<Rightarrow> nat \<Rightarrow> py_error + nat" where
  "vdata_old_switch_api_key API_KEYS key_index =
     (if API_KEYS = [] then Inl ZeroDivisionError
      else let i = (key_index + 1) mod length API_KEYS
           in if i = 0 then Inl KeysExhausted else Inr i)"

section \<open>URL classification\<close>

subsection \<open>String operations\<close>

text \<open>\<open>s.startswith(p)\<close>, \<open>sub in s\<close> and \<open>s.split(sep)\<close> (for a non-empty separator).\<close>

definition starts_with :: "string \<Rightarrow> string \<Rightarrow> bool" where
  "starts_with p s = (take (length p) s = p)"

fun contains :: "string \<Rightarrow> string \<Rightarrow> bool" where
  "contains sub [] = (sub = [])"
| "contains sub (c # cs) = (starts_with sub (c # cs) \<or> contains sub cs)"

fun split_from :: "string \<Rightarrow> string \<Rightarrow> string \<Rightarrow> string list" where
  "split_from sep acc [] = [rev acc]"
| "split_from sep acc (c # cs) =
     (if sep \<noteq> [] \<and> starts_with sep (c # cs)
      then rev acc # split_from sep [] (drop (length sep - 1) cs)
      else split_from sep (c # acc) cs)"

definition py_split :: "string \<Rightarrow> string \<Rightarrow> string list" where
  "py_split sep s = split_from sep [] s"

text \<open>\<open>xs[i]\<close> for \<open>i \<ge> 0\<close>, and \<open>xs[-1]\<close>: \<open>IndexError\<close> out of range.\<close>

definition py_index :: "'a list \<Rightarrow> nat \<Rightarrow> py_error + 'a" where
  "py_index xs i = (if i < length xs then Inr (xs ! i) else Inl IndexError)"

definition py_last :: "'a list \<Rightarrow> py_error + 'a" where
  "py_last xs = (case xs of [] \<Rightarrow> Inl IndexError | _ \<Rightarrow> Inr (last xs))"

text \<open>
  \<open>re.search\<close> for the patterns of the classifiers, all of the shape
  \<open>(?:lit1|lit2|...)([class]+)\<close>: at one position the alternatives are tried in order
  and the group takes the maximal non-empty run of the class; the search returns the
  group of the leftmost position that matches.
\<close>

fun match_at :: "string list \<Rightarrow> (char \<Rightarrow> bool) \<Rightarrow> string \<Rightarrow> string option" where
  "match_at [] cls s = None"
| "match_at (lit # lits) cls s =
     (if starts_with lit s \<and> takeWhile cls (drop (length lit) s) \<noteq> []
      then Some (takeWhile cls (drop (length lit) s))
      else match_at lits cls s)"

fun re_search :: "string list \<Rightarrow> (char \<Rightarrow> bool) \<Rightarrow> string \<Rightarrow> string option" where
  "re_search lits cls [] = match_at lits cls []"
| "re_search lits cls (c # cs) =
     (case match_at lits cls (c # cs) of
        Some g \<Rightarrow> Some g
      | None \<Rightarrow> re_search lits cls cs)"

subsection \<open>YouTubeMetadataExtractor.parse\_url\<close>

datatype url_info = Video_info string | Playlist_info string | Channel_info string

text \<open>
  \<open>parse_video_url\<close>: \<open>url.split('/')[-1]\<close> for a \<open>youtu.be\<close> link, else the group of
  \<open>[?&]v=([a-zA-Z0-9_-]+)\<close>.
\<close>

definition parse_video_url :: "string \<Rightarrow> py_error + url_info option" where
  "parse_video_url url =
     (if contains ''youtu.be'' url then
        (case py_last (py_split ''/'' url) of
           Inl e \<Rightarrow> Inl e
         | Inr v \<Rightarrow> Inr (Some (Video_info v)))
      else (case re_search [''?v='', ''&v=''] is_id_char url of
              Some g \<Rightarrow> Inr (Some (Video_info g))
            | None \<Rightarrow> Inr None))"

definition parse_playlist_url :: "string \<Rightarrow> py_error + url_info option" where
  "parse_playlist_url url =
     (case re_search [''list=''] is_id_char url of
        Some g \<Rightarrow> Inr (Some (Playlist_info g))
      | None \<Rightarrow> Inr None)"

definition parse_channel_url :: "string \<Rightarrow> py_error + url_info option" where
  "parse_channel_url url =
     (if contains ''/channel/'' url then
        (case py_last (py_split ''/channel/'' url) of
           Inl e \<Rightarrow> Inl e
         | Inr c \<Rightarrow> Inr (Some (Channel_info c)))
      else if contains ''/@'' url then
        (case py_last (py_split ''/@'' url) of
           Inl e \<Rightarrow> Inl e
         | Inr c \<Rightarrow> Inr (Some (Channel_info c)))
      else Inr None)"

definition parse_url :: "string \<Rightarrow> py_error + url_info option" where
  "parse_url url =
     (if contains ''youtube.com/watch'' url \<or> contains ''youtu.be'' url then parse_video_url url
      else if contains ''youtube.com/playlist'' url then parse_playlist_url url
      else if contains ''youtube.com/channel'' url \<or> contains ''@'' url then parse_channel_url url
      else Inr None)"

subsection \<open>vdata.extract\_identifier and test/vdata\_old.extract\_identifier\<close>

datatype url_type = Playlist | Video | Channel_id | Handle

text \<open>
  The pair \<open>(identifier, url_type)\<close> the two functions return; \<open>None\<close> stands for the pair
  \<open>(None, None)\<close>. In \<open>vdata.py\<close> the four searches are
  \<open>playlist\?list=([^&]+)\<close>, \<open>(?:watch\?v=|\/v\/)([a-zA-Z0-9_-]+)\<close>,
  \<open>\/channel\/([^/]+)\<close> and \<open>@([^/]+)\<close>.
\<close>

definition extract_identifier :: "string \<Rightarrow> (string \<times> url_type) option" where
  "extract_identifier url =
     (let match_playlist = re_search [''playlist?list=''] (\<lambda>c. c \<noteq> CHR ''&'') url;
          match_video = re_search [''watch?v='', ''/v/''] is_id_char url;
          match_channel = re_search [''/channel/''] (\<lambda>c. c \<noteq> CHR ''/'') url;
          match_handle = re_search [''@''] (\<lambda>c. c \<noteq> CHR ''/'') url
      in case match_playlist of
           Some g \<Rightarrow> Some (g, Playlist)
         | None \<Rightarrow>
             (case match_video of
                Some g \<Rightarrow> Some (g, Video)
              | None \<Rightarrow>
                  (case match_channel of
                     Some g \<Rightarrow> Some (g, Channel_id)
                   | None \<Rightarrow>
                       (case match_handle of
                          Some g \<Rightarrow> Some (g, Handle)
                        | None \<Rightarrow> None))))"

text \<open>\<open>url.split(a)[1]\<close> and \<open>url.split(a)[1].split(b)[0]\<close> of the earlier module.\<close>

definition after :: "string \<Rightarrow> string \<Rightarrow> py_error + string" where
  "after a url = py_index (py_split a url) 1"

definition after_before :: "string \<Rightarrow> string \<Rightarrow> string \<Rightarrow> py_error + string" where
  "after_before a b url =
     (case after a url of
        Inl e \<Rightarrow> Inl e
      | Inr rest \<Rightarrow> py_index (py_split b rest) 0)"

definition tagged :: "url_type \<Rightarrow> py_error + string \<Rightarrow> py_error + (string \<times> url_type) option" where
  "tagged t r = (case r of Inl e \<Rightarrow> Inl e | Inr v \<Rightarrow> Inr (Some (v, t)))"

definition vdata_old_extract_identifier :: "string \<Rightarrow> py_error + (string \<times> url_type) option" where
  "vdata_old_extract_identifier url =
     (if contains ''playlist?list='' url then tagged Playlist (after ''list='' url)
      else if contains ''watch?v='' url then tagged Video (after_before ''watch?v='' ''&'' url)
      else if contains ''youtu.be/'' url then tagged Video (after_before ''youtu.be/'' ''?'' url)
      else if contains ''shorts/'' url then tagged Video (after_before ''shorts/'' ''?'' url)
      else if contains ''/channel/'' url then tagged Channel_id (after ''/channel/'' url)
      else if contains ''@'' url then tagged Handle (after ''@'' url)
      else Inr None)"

section \<open>Playlist traversal (YouTubeMetadataExtractor.fetch\_videos\_from\_playlist)\<close>

text \<open>
  What one \<open>request.execute()\<close> of the listing call can do: return a page (its items in
  the order the server sent them, and the \<open>nextPageToken\<close> if the response has one),
  raise \<open>HttpError\<close> 403 with reason \<open>quotaExceeded\<close>, raise another \<open>HttpError\<close>, or raise
  an exception that is not an \<open>HttpError\<close> and so passes through the handler. An item is
  the video identifier at \<open>item['snippet']['resourceId']['videoId']\<close>, or \<open>None\<close> when the
  item lacks that path, which makes the lookup raise \<open>KeyError\<close>.
\<close>

datatype api_response =
    Page "string option list" "string option"
  | Quota_exceeded
  | Other_http_error
  | Other_exception

text \<open>
  One call of \<open>execute()\<close>: what it does, given the developer key of the session and the
  \<open>pageToken\<close> of the request.
\<close>

type_synonym api_call = "string \<Rightarrow> string option \<Rightarrow> api_response"

text \<open>\<open>not next_page_token\<close>: a missing token and the empty string are both falsy.\<close>

definition falsy :: "string option \<Rightarrow> bool" where
  "falsy tok = (case tok of None \<Rightarrow> True | Some t \<Rightarrow> t = [])"

text \<open>
  The \<open>for\<close> loop over the items of a page: the identifiers in order, or \<open>None\<close> when a
  lookup raises.
\<close>

fun item_ids :: "string option list \<Rightarrow> string list option" where
  "item_ids [] = Some []"
| "item_ids (None # items) = None"
| "item_ids (Some v # items) = (case item_ids items of None \<Rightarrow> None | Some vs \<Rightarrow> Some (v # vs))"

text \<open>
  The \<open>while True\<close> loop. Its state is the extractor (the cursor moves on rotation), the
  identifiers collected so far, the continuation cursor and the retry counter; the last
  argument lists the successive calls of \<open>execute()\<close>, each applied to the key of the
  current session and to the current continuation cursor. The loop returns \<open>None\<close> when
  that list ends before the loop has left, \<open>Some (Inl err)\<close> when the process exits or an
  exception escapes, and \<open>Some (Inr (video_ids, e))\<close> when the function returns.
\<close>

fun playlist_loop ::
  "extractor \<Rightarrow> string list \<Rightarrow> string option \<Rightarrow> nat \<Rightarrow> api_call list
     \<Rightarrow> (py_error + string list \<times> extractor) option" where
  "playlist_loop e video_ids next_page_token retries [] = None"
| "playlist_loop e video_ids next_page_token retries (call # calls) =
     (case call (youtube e) next_page_token of
        Page items tok \<Rightarrow>
          (case item_ids items of
             None \<Rightarrow> Some (Inl KeyError)
           | Some ids \<Rightarrow>
               if falsy tok then Some (Inr (video_ids @ ids, e))
               else playlist_loop e (video_ids @ ids) tok retries calls)
      | Quota_exceeded \<Rightarrow>
          (case switch_api_key e of
             Inl err \<Rightarrow> Some (Inl err)
           | Inr e' \<Rightarrow>
               if retries + 1 > length (api_keys e') then Some (Inl SystemExit)
               else playlist_loop e' video_ids next_page_token (retries + 1) calls)
      | Other_http_error \<Rightarrow> Some (Inr (video_ids, e))
      | Other_exception \<Rightarrow> Some (Inl Propagated))"

definition fetch_videos_from_playlist ::
  "extractor \<Rightarrow> api_call list \<Rightarrow> (py_error + string list \<times> extractor) option" where
  "fetch_videos_from_playlist e calls = playlist_loop e [] None 0 calls"

text \<open>
  The listing as the server holds it: for each continuation cursor (\<open>None\<close> for the first
  request) the identifiers of that page and the cursor of the next page, if any. A call
  either serves the page that the cursor of the request names, or refuses the request
  for quota; \<open>answer listing q\<close> is the call that refuses when \<open>q\<close> holds.
\<close>

type_synonym listing = "string option \<Rightarrow> string list \<times> string option"

definition serve :: "listing \<Rightarrow> api_call" where
  "serve listing key tok = (case listing tok of (items, next) \<Rightarrow> Page (map Some items) next)"

definition refuse :: api_call where
  "refuse key tok = Quota_exceeded"

definition answer :: "listing \<Rightarrow> bool \<Rightarrow> api_call" where
  "answer listing q = (if q then refuse else serve listing)"

definition quota_count :: "bool list \<Rightarrow> nat" where
  "quota_count qs = length (filter (\<lambda>q. q) qs)"

definition served_count :: "bool list \<Rightarrow> nat" where
  "served_count qs = length (filter (\<lambda>q. \<not> q) qs)"

text \<open>
  The pages of the listing in server order, from the page of cursor \<open>tok\<close> to the page
  without a continuation cursor, if that page is among the first \<open>n\<close>.
\<close>

fun pages_from :: "listing \<Rightarrow> string option \<Rightarrow> nat \<Rightarrow> string list list option" where
  "pages_from listing tok 0 = None"
| "pages_from listing tok (Suc n) =
     (case listing tok of
        (items, next) \<Rightarrow>
          if falsy next then Some [items]
          else (case pages_from listing next n of
                  None \<Rightarrow> None
                | Some pgs \<Rightarrow> Some (items # pgs)))"

section \<open>Consolidation (deduplication.deduplicate\_dataframe)\<close>

text \<open>
  A table as \<open>pandas\<close> and the CSV reader hold it: the column names and the rows, each row
  the list of its cells in column order. A cell that a row does not have reads as \<open>None\<close>.
\<close>

record dataframe =
  columns :: "string list"
  rows :: "string list list"

definition cell :: "string list \<Rightarrow> string \<Rightarrow> string list \<Rightarrow> string option" where
  "cell cols k row = map_of (zip cols row) k"

text \<open>
  \<open>drop_duplicates(subset=[key], keep='first')\<close>: a row is kept when no earlier row has
  its key; \<open>seen\<close> holds the keys of the rows before.
\<close>

fun keep_first :: "('r \<Rightarrow> 'k) \<Rightarrow> 'k list \<Rightarrow> 'r list \<Rightarrow> 'r list" where
  "keep_first key seen [] = []"
| "keep_first key seen (r # rs) =
     (if key r \<in> set seen then keep_first key seen rs
      else r # keep_first key (key r # seen) rs)"

definition drop_duplicates :: "string \<Rightarrow> dataframe \<Rightarrow> dataframe" where
  "drop_duplicates key_column df =
     df\<lparr>rows := keep_first (cell (columns df) key_column) [] (rows df)\<rparr>"

definition deduplicate_dataframe :: "dataframe \<Rightarrow> string \<Rightarrow> dataframe" where
  "deduplicate_dataframe df key_column =
     (if key_column \<notin> set (columns df) then df
      else drop_duplicates key_column df)"

section \<open>Incremental fetch\<close>

subsection \<open>The known identifiers\<close>






text \<open>
  \<open>YouTubeMetadataExtractor.get_existing_video_ids\<close>: if \<open>metadata_file\<close> exists, the set of
  \<open>pd.read_csv(self.metadata_file)['Video ID'].tolist()\<close>, and the empty set if not. What
  \<open>pandas\<close> makes of a file is taken as it comes: \<open>read_video_ids\<close> stands for the
  expression on the content of a file, with the errors it raises (a file without header,
  a header without the column) and the values it returns. The type of a column is
  inferred, so identifiers that all read as numbers come back as integers, and an empty
  cell as a float; a candidate, which is a string, is equal to none of these.
\<close>

datatype py_value = Py_str string | Py_int int | Py_other string

definition get_existing_video_ids ::
  "('f \<Rightarrow> py_error + py_value list) \<Rightarrow> (string \<rightharpoonup> 'f) \<Rightarrow> string \<Rightarrow> py_error + py_value set" where
  "get_existing_video_ids read_video_ids files metadata_file =
     (case files metadata_file of
        None \<Rightarrow> Inr {}
      | Some content \<Rightarrow>
          (case read_video_ids content of
             Inl err \<Rightarrow> Inl err
           | Inr values \<Rightarrow> Inr (set values)))"

text \<open>The strings that a set of values holds: the candidates that \<open>in\<close> finds in it.\<close>

definition strings_in :: "py_value set \<Rightarrow> string set" where
  "strings_in values = Py_str -` values"

text \<open>
  Step 2 of \<open>process_urls\<close>: \<open>list(set(all_video_ids) - existing_video_ids)\<close>. The order of
  the resulting list is whatever the iteration over a Python set gives; \<open>new_video_ids\<close>
  says what any such list satisfies.
\<close>

definition new_video_ids :: "string list \<Rightarrow> string set \<Rightarrow> string list \<Rightarrow> bool" where
  "new_video_ids all_video_ids existing_video_ids result =
     (set result = set all_video_ids - existing_video_ids \<and> distinct result)"

subsection \<open>Batches and the detail fetch\<close>

text \<open>
  \<open>range(0, n, 50)\<close> and the slice \<open>video_ids[i:i + 50]\<close>.
\<close>

definition batch_offsets :: "nat \<Rightarrow> nat list" where
  "batch_offsets n = map (\<lambda>k. k * 50) [0..<(n + 49) div 50]"

definition batch_at :: "string list \<Rightarrow> nat \<Rightarrow> string list" where
  "batch_at video_ids i = take 50 (drop i video_ids)"

text \<open>
  What one \<open>request.execute()\<close> of the detail call can do: return the items, or raise as
  for the listing call. What the code does that is visible from outside: a detail call
  for a batch of identifiers, and a sleep of some seconds.
\<close>

datatype 'i detail_response =
    Items "'i list"
  | Detail_quota_exceeded
  | Detail_http_error
  | Detail_exception

datatype event = Execute "string list" | Sleep nat

fun fails :: "'i detail_response \<Rightarrow> bool" where
  "fails (Items items) = False"
| "fails _ = True"

text \<open>
  Building the dictionary of an item can raise (a missing \<open>id\<close>, a field of the wrong
  type): \<open>mk item\<close> is the dictionary, or \<open>None\<close> when building it raises. In
  \<open>vdata.get_video_metadata\<close> each dictionary is appended to \<open>video_data\<close> as soon as it
  is built, inside the \<open>try\<close>: \<open>append_items\<close> gives \<open>video_data\<close> after the loop over the
  items, and whether the loop came to its end.
\<close>

fun append_items :: "('i \<Rightarrow> 'r option) \<Rightarrow> 'i list \<Rightarrow> 'r list \<Rightarrow> 'r list \<times> bool" where
  "append_items mk [] video_data = (video_data, True)"
| "append_items mk (item # items) video_data =
     (case mk item of
        None \<Rightarrow> (video_data, False)
      | Some r \<Rightarrow> append_items mk items (video_data @ [r]))"

text \<open>
  \<open>vdata.get_video_metadata\<close>. The \<open>while retries > 0\<close> loop of one batch: \<open>execute\<close> maps
  the number of the attempt (0, 1, 2) to what the call does. Every exception, of the
  call or of the loop over the items, is caught by \<open>except Exception\<close>; after it the
  counter goes down and, if attempts are left, the code sleeps 5 seconds. What was
  appended before the exception stays in \<open>video_data\<close>.
\<close>

fun retry_loop ::
  "('i \<Rightarrow> 'r option) \<Rightarrow> (nat \<Rightarrow> 'i detail_response) \<Rightarrow> string list \<Rightarrow> nat
     \<Rightarrow> 'r list \<Rightarrow> event list \<Rightarrow> 'r list \<times> event list" where
  "retry_loop mk execute batch_ids 0 video_data trace = (video_data, trace)"
| "retry_loop mk execute batch_ids (Suc n) video_data trace =
     (case (case execute (3 - Suc n) of
              Items items \<Rightarrow> append_items mk items video_data
            | _ \<Rightarrow> (video_data, False)) of
        (video_data', True) \<Rightarrow> (video_data', trace @ [Execute batch_ids])
      | (video_data', False) \<Rightarrow>
          if n > 0 then retry_loop mk execute batch_ids n video_data'
                          (trace @ [Execute batch_ids, Sleep 5])
          else retry_loop mk execute batch_ids n video_data' (trace @ [Execute batch_ids]))"

text \<open>
  The \<open>for\<close> loop over the batches: \<open>execute i\<close> is the behaviour of the request built for
  the batch at offset \<open>i\<close>.
\<close>

fun metadata_loop ::
  "('i \<Rightarrow> 'r option) \<Rightarrow> (nat \<Rightarrow> nat \<Rightarrow> 'i detail_response) \<Rightarrow> string list \<Rightarrow> nat list
     \<Rightarrow> 'r list \<Rightarrow> event list \<Rightarrow> 'r list \<times> event list" where
  "metadata_loop mk execute video_ids [] video_data trace = (video_data, trace)"
| "metadata_loop mk execute video_ids (i # offsets) video_data trace =
     (let (video_data', trace') =
            retry_loop mk (execute i) (batch_at video_ids i) 3 video_data trace
      in metadata_loop mk execute video_ids offsets video_data' trace')"

definition get_video_metadata ::
  "('i \<Rightarrow> 'r option) \<Rightarrow> (nat \<Rightarrow> nat \<Rightarrow> 'i detail_response) \<Rightarrow> string list \<Rightarrow> 'r list \<times> event list" where
  "get_video_metadata mk execute video_ids =
     metadata_loop mk execute video_ids (batch_offsets (length video_ids)) [] []"

text \<open>
  \<open>YouTubeMetadataExtractor.fetch_video_metadata_batch\<close>: one call; only \<open>HttpError\<close> is
  caught. The dictionaries are collected in a local list, which is returned when all are
  built; an exception while building one passes through, like any exception of the call
  that is not an \<open>HttpError\<close>. A quota-exceeded error switches the key (which may exit)
  and the batch yields nothing; another \<open>HttpError\<close> yields nothing.
\<close>

fun build_all :: "('i \<Rightarrow> 'r option) \<Rightarrow> 'i list \<Rightarrow> 'r list option" where
  "build_all mk [] = Some []"
| "build_all mk (item # items) =
     (case mk item of
        None \<Rightarrow> None
      | Some r \<Rightarrow> (case build_all mk items of None \<Rightarrow> None | Some rs \<Rightarrow> Some (r # rs)))"

definition fetch_video_metadata_batch ::
  "('i \<Rightarrow> 'r option) \<Rightarrow> extractor \<Rightarrow> 'i detail_response \<Rightarrow> py_error + 'r list \<times> extractor" where
  "fetch_video_metadata_batch mk e response =
     (case response of
        Items items \<Rightarrow>
          (case build_all mk items of
             None \<Rightarrow> Inl Propagated
           | Some metadata_list \<Rightarrow> Inr (metadata_list, e))
      | Detail_quota_exceeded \<Rightarrow>
          (case switch_api_key e of
             Inl err \<Rightarrow> Inl err
           | Inr e' \<Rightarrow> Inr ([], e'))
      | Detail_http_error \<Rightarrow> Inr ([], e)
      | Detail_exception \<Rightarrow> Inl Propagated)"

text \<open>
  Step 3 of \<open>process_urls\<close>: the loop over the batches of \<open>all_video_ids\<close>, with
  \<open>execute i\<close> the behaviour of the call for the batch at offset \<open>i\<close>. The result is the
  trace of the calls made, and the error that ended the run or the metadata collected.
\<close>

fun fetch_batches ::
  "('i \<Rightarrow> 'r option) \<Rightarrow> (nat \<Rightarrow> 'i detail_response) \<Rightarrow> string list \<Rightarrow> nat list
     \<Rightarrow> extractor \<Rightarrow> 'r list \<Rightarrow> event list \<Rightarrow> event list \<times> (py_error + 'r list \<times> extractor)" where
  "fetch_batches mk execute all_video_ids [] e metadata trace = (trace, Inr (metadata, e))"
| "fetch_batches mk execute all_video_ids (i # offsets) e metadata trace =
     (case fetch_video_metadata_batch mk e (execute i) of
        Inl err \<Rightarrow> (trace @ [Execute (batch_at all_video_ids i)], Inl err)
      | Inr (records, e') \<Rightarrow>
          fetch_batches mk execute all_video_ids offsets e' (metadata @ records)
            (trace @ [Execute (batch_at all_video_ids i)]))"

definition process_urls_fetch ::
  "('i \<Rightarrow> 'r option) \<Rightarrow> (nat \<Rightarrow> 'i detail_response) \<Rightarrow> string list \<Rightarrow> extractor
     \<Rightarrow> event list \<times> (py_error + 'r list \<times> extractor)" where
  "process_urls_fetch mk execute all_video_ids e =
     fetch_batches mk execute all_video_ids (batch_offsets (length all_video_ids)) e [] []"


section \<open>Properties of duration parsing\<close>

lemma letters_not_digits [simp]:
  "\<not> is_digit CHR ''H''" "\<not> is_digit CHR ''M''" "\<not> is_digit CHR ''S''"
  by (simp_all add: is_digit_def)

lemma opt_group_hit:
  assumes "ds \<noteq> []" "list_all is_digit ds" "\<not> is_digit x"
  shows "opt_group x (ds @ x # rest) = (Some ds, rest)"
proof -
  from assms(2) have all: "\<forall>c \<in> set ds. is_digit c" by (simp add: list_all_iff)
  have "takeWhile is_digit (ds @ x # rest) = ds"
    using all assms(3) by simp
  moreover have "dropWhile is_digit (ds @ x # rest) = x # rest"
    using all assms(3) by simp
  ultimately show ?thesis using assms(1) by (simp add: opt_group_def)
qed

lemma opt_group_miss:
  assumes "list_all is_digit ds" "\<not> is_digit y" "y \<noteq> x"
  shows "opt_group x (ds @ y # rest) = (None, ds @ y # rest)"
proof -
  from assms(1) have all: "\<forall>c \<in> set ds. is_digit c" by (simp add: list_all_iff)
  have "dropWhile is_digit (ds @ y # rest) = y # rest"
    using all assms(2) by simp
  then show ?thesis using assms(3) by (simp add: opt_group_def)
qed

lemma opt_group_not_continued:
  assumes "\<not> continues_with letters t" "x \<in> set letters"
  shows "opt_group x t = (None, t)"
proof (cases "dropWhile is_digit t")
  case Nil
  show ?thesis unfolding opt_group_def Let_def Nil by simp
next
  case (Cons c rest)
  from assms have "takeWhile is_digit t = [] \<or> c \<noteq> x"
    unfolding continues_with_def Cons by auto
  then show ?thesis unfolding opt_group_def Let_def Cons by auto
qed

lemma group_int_field: "field_ok g \<Longrightarrow> group_int g = Inr (field_val g)"
  by (cases g) (auto simp: group_int_def py_int_def list_all_iff)

text \<open>The three groups on a duration of the form, followed by text that does not continue it.\<close>

lemma seconds_group:
  assumes "field_ok s" "\<not> continues_with (later_letters h m s) t"
  shows "opt_group CHR ''S'' (component s CHR ''S'' @ t) = (s, t)"
proof (cases s)
  case None
  have "CHR ''S'' \<in> set (later_letters h m None)" by (simp add: later_letters_def)
  with assms None show ?thesis by (simp add: opt_group_not_continued)
next
  case (Some ds)
  with assms show ?thesis by (simp add: opt_group_hit)
qed

lemma minutes_group:
  assumes "field_ok m" "field_ok s" "\<not> continues_with (later_letters h m s) t"
  shows "opt_group CHR ''M'' (component m CHR ''M'' @ component s CHR ''S'' @ t)
           = (m, component s CHR ''S'' @ t)"
proof (cases m)
  case (Some ds)
  with assms show ?thesis by (simp add: opt_group_hit)
next
  case None
  show ?thesis
  proof (cases s)
    case (Some ds)
    with assms None show ?thesis by (simp add: opt_group_miss)
  next
    case sNone: None
    have "CHR ''M'' \<in> set (later_letters h None None)" by (simp add: later_letters_def)
    with assms None sNone show ?thesis by (simp add: opt_group_not_continued)
  qed
qed

lemma hours_group:
  assumes "field_ok h" "field_ok m" "field_ok s" "\<not> continues_with (later_letters h m s) t"
  shows "opt_group CHR ''H''
             (component h CHR ''H'' @ component m CHR ''M'' @ component s CHR ''S'' @ t)
           = (h, component m CHR ''M'' @ component s CHR ''S'' @ t)"
proof (cases h)
  case (Some ds)
  with assms show ?thesis by (simp add: opt_group_hit)
next
  case None
  show ?thesis
  proof (cases m)
    case (Some ds)
    with assms None show ?thesis by (simp add: opt_group_miss)
  next
    case mNone: None
    show ?thesis
    proof (cases s)
      case (Some ds)
      with assms None mNone show ?thesis by (simp add: opt_group_miss)
    next
      case sNone: None
      have "CHR ''H'' \<in> set (later_letters None None None)" by (simp add: later_letters_def)
      with assms None mNone sNone show ?thesis by (simp add: opt_group_not_continued)
    qed
  qed
qed

lemma parse_duration_prefix:
  assumes "field_ok h" "field_ok m" "field_ok s" "\<not> continues_with (later_letters h m s) t"
  shows "parse_duration (Some (iso_duration h m s @ t))
           = Inr (field_val h * 3600 + field_val m * 60 + field_val s)"
  using assms hours_group[OF assms] minutes_group[OF assms(2-4)] seconds_group[OF assms(3,4)]
  by (simp add: parse_duration_def iso_duration_def group_int_field)

lemma not_continues_Nil [simp]: "\<not> continues_with letters []"
  by (simp add: continues_with_def)

lemma not_continues_after_seconds [simp]: "\<not> continues_with (later_letters h m (Some ds)) t"
  by (simp add: later_letters_def continues_with_def split: list.splits)


text \<open>
  What the function does on any argument: a missing or empty duration and a string that
  does not start with \<open>PT\<close> give 0; the only exception that can leave it is the
  \<open>ValueError\<close> of \<open>int\<close> on a run of more than 4300 digits, so a string of at most 4300
  characters never raises.
\<close>

lemma parse_duration_missing: "parse_duration None = Inr 0" "parse_duration (Some []) = Inr 0"
  by (simp_all add: parse_duration_def)

lemma parse_duration_not_PT:
  assumes "\<not> starts_with ''PT'' d"
  shows "parse_duration (Some d) = Inr 0"
  using assms by (auto simp: parse_duration_def starts_with_def split: list.splits)

lemma py_int_error: "py_int s = Inl e \<Longrightarrow> e = ValueError"
  by (auto simp: py_int_def split: if_splits)

lemma group_int_error: "group_int g = Inl e \<Longrightarrow> e = ValueError"
  by (auto simp: group_int_def split: option.splits if_splits dest: py_int_error)

lemma parse_duration_error:
  assumes "parse_duration d = Inl e"
  shows "e = ValueError"
  using assms
  by (auto simp: parse_duration_def Let_def
      split: option.splits if_splits list.splits prod.splits sum.splits
      dest: group_int_error)

lemma opt_group_digits:
  assumes "opt_group x s = (Some ds, r)"
  shows "ds \<noteq> [] \<and> (\<forall>c \<in> set ds. is_digit c) \<and> length ds < length s"
proof (cases "dropWhile is_digit s")
  case Nil
  from assms show ?thesis unfolding opt_group_def Let_def Nil by simp
next
  case (Cons c rest)
  from assms have ds: "ds = takeWhile is_digit s" "ds \<noteq> []"
    unfolding opt_group_def Let_def Cons by (auto split: if_splits)
  have "length (takeWhile is_digit s) + length (dropWhile is_digit s) = length s"
    by (metis length_append takeWhile_dropWhile_id)
  then have "length ds < length s" unfolding Cons ds(1) by simp
  with ds show ?thesis by (auto dest: set_takeWhileD)
qed

lemma opt_group_rest: "length (snd (opt_group x s)) \<le> length s"
proof -
  have "length (takeWhile is_digit s) + length (dropWhile is_digit s) = length s"
    by (metis length_append takeWhile_dropWhile_id)
  then show ?thesis
    by (auto simp: opt_group_def Let_def split: list.splits)
qed

lemma group_int_short:
  assumes "opt_group x s = (g, r)" "length s \<le> int_max_str_digits"
  shows "\<exists>n. group_int g = Inr n"
proof (cases g)
  case None
  then show ?thesis by (simp add: group_int_def)
next
  case (Some ds)
  with assms(1) opt_group_digits[of x s ds r] assms(2) show ?thesis
    by (simp add: group_int_def py_int_def)
qed

lemma parse_duration_short:
  assumes "length str \<le> int_max_str_digits"
  shows "\<exists>n. parse_duration (Some str) = Inr n"
proof (cases "\<exists>r0. str = CHR ''P'' # CHR ''T'' # r0")
  case True
  then obtain r0 where str: "str = CHR ''P'' # CHR ''T'' # r0" by blast
  obtain g1 r1 where 1: "opt_group CHR ''H'' r0 = (g1, r1)" by (cases "opt_group CHR ''H'' r0")
  obtain g2 r2 where 2: "opt_group CHR ''M'' r1 = (g2, r2)" by (cases "opt_group CHR ''M'' r1")
  obtain g3 r3 where 3: "opt_group CHR ''S'' r2 = (g3, r3)" by (cases "opt_group CHR ''S'' r2")
  from assms str have l0: "length r0 \<le> int_max_str_digits" by simp
  from opt_group_rest[of "CHR ''H''" r0] 1 l0 have l1: "length r1 \<le> int_max_str_digits" by simp
  from opt_group_rest[of "CHR ''M''" r1] 2 l1 have l2: "length r2 \<le> int_max_str_digits" by simp
  from group_int_short[OF 1 l0] obtain a where a: "group_int g1 = Inr a" by auto
  from group_int_short[OF 2 l1] obtain b where b: "group_int g2 = Inr b" by auto
  from group_int_short[OF 3 l2] obtain c where c: "group_int g3 = Inr c" by auto
  show ?thesis using str 1 2 3 a b c by (simp add: parse_duration_def)
next
  case False
  then show ?thesis
    by (auto simp: parse_duration_def split: list.splits)
qed

text \<open>
  \<open>vdata.parse_duration\<close> returns 0 whenever the library rejects the string, and for a
  missing duration.
\<close>

lemma vdata_parse_duration_rejected:
  "isodate_seconds d = Inl err \<Longrightarrow> vdata_parse_duration isodate_seconds (Some d) = 0"
  "vdata_parse_duration isodate_seconds None = 0"
  by (simp_all add: vdata_parse_duration_def)

text \<open>
  Conversely, every string that starts with \<open>PT\<close> is a duration of the form followed by
  text that does not continue it, and the function returns the value of that duration,
  or raises when one of its components is too long for \<open>int\<close>.
\<close>

lemma opt_group_split:
  assumes "opt_group x s = (g, r)"
  shows "s = component g x @ r \<and> digit_run g"
proof (cases "dropWhile is_digit s")
  case Nil
  from assms show ?thesis unfolding opt_group_def Let_def Nil by auto
next
  case (Cons c rest)
  have id: "takeWhile is_digit s @ c # rest = s"
    using takeWhile_dropWhile_id[of is_digit s] unfolding Cons .
  show ?thesis
  proof (cases "takeWhile is_digit s \<noteq> [] \<and> c = x")
    case True
    with assms have "g = Some (takeWhile is_digit s)" "r = rest"
      unfolding opt_group_def Let_def Cons by auto
    with True id show ?thesis
      by (auto simp: list_all_iff dest: set_takeWhileD)
  next
    case False
    with assms have "g = None" "r = s"
      unfolding opt_group_def Let_def Cons by auto
    then show ?thesis by simp
  qed
qed

lemma opt_group_None:
  assumes "opt_group x s = (None, r)"
  shows "r = s \<and> \<not> continues_with [x] s"
proof (cases "dropWhile is_digit s")
  case Nil
  from assms show ?thesis unfolding opt_group_def Let_def continues_with_def Nil by auto
next
  case (Cons c rest)
  from assms show ?thesis
    unfolding opt_group_def Let_def continues_with_def Cons by (auto split: if_splits)
qed

lemma continues_with_two:
  "continues_with [a, b] t = (continues_with [a] t \<or> continues_with [b] t)"
proof (cases "dropWhile is_digit t")
  case Nil
  show ?thesis unfolding continues_with_def Nil by simp
next
  case (Cons c rest)
  show ?thesis unfolding continues_with_def Cons by auto
qed

lemma continues_with_three:
  "continues_with [a, b, c] t
     = (continues_with [a] t \<or> continues_with [b] t \<or> continues_with [c] t)"
proof (cases "dropWhile is_digit t")
  case Nil
  show ?thesis unfolding continues_with_def Nil by simp
next
  case (Cons d rest)
  show ?thesis unfolding continues_with_def Cons by auto
qed

lemma parse_duration_decomposed:
  assumes "starts_with ''PT'' str"
  shows "\<exists>h m s t. str = iso_duration h m s @ t
           \<and> digit_run h \<and> digit_run m \<and> digit_run s
           \<and> \<not> continues_with (later_letters h m s) t
           \<and> parse_duration (Some str)
               = (if field_ok h \<and> field_ok m \<and> field_ok s
                  then Inr (field_val h * 3600 + field_val m * 60 + field_val s)
                  else Inl ValueError)"
proof -
  have "\<exists>r0. str = CHR ''P'' # CHR ''T'' # r0"
  proof (cases str)
    case Nil
    with assms show ?thesis by (simp add: starts_with_def)
  next
    case (Cons a as)
    with assms show ?thesis by (cases as) (simp_all add: starts_with_def)
  qed
  then obtain r0 where str: "str = CHR ''P'' # CHR ''T'' # r0" by blast
  obtain g1 r1 where 1: "opt_group CHR ''H'' r0 = (g1, r1)" by (cases "opt_group CHR ''H'' r0")
  obtain g2 r2 where 2: "opt_group CHR ''M'' r1 = (g2, r2)" by (cases "opt_group CHR ''M'' r1")
  obtain g3 r3 where 3: "opt_group CHR ''S'' r2 = (g3, r3)" by (cases "opt_group CHR ''S'' r2")
  from opt_group_split[OF 1] opt_group_split[OF 2] opt_group_split[OF 3]
  have form: "str = iso_duration g1 g2 g3 @ r3" "digit_run g1" "digit_run g2" "digit_run g3"
    by (simp_all add: str iso_duration_def)
  have nc: "\<not> continues_with (later_letters g1 g2 g3) r3"
  proof (cases g3)
    case (Some ds)
    then show ?thesis by simp
  next
    case None
    with opt_group_None[of "CHR ''S''" r2 r3] 3
    have s: "r3 = r2" "\<not> continues_with ''S'' r2" by simp_all
    show ?thesis
    proof (cases g2)
      case (Some ds)
      with None s show ?thesis by (simp add: later_letters_def)
    next
      case mNone: None
      with opt_group_None[of "CHR ''M''" r1 r2] 2
      have m: "r2 = r1" "\<not> continues_with ''M'' r1" by simp_all
      show ?thesis
      proof (cases g1)
        case (Some ds)
        with None mNone s m show ?thesis
          by (simp add: later_letters_def continues_with_two)
      next
        case hNone: None
        with opt_group_None[of "CHR ''H''" r0 r1] 1
        have h: "r1 = r0" "\<not> continues_with ''H'' r0" by simp_all
        with None mNone hNone s m show ?thesis
          by (simp add: later_letters_def continues_with_three)
      qed
    qed
  qed
  have gi: "group_int g = (if field_ok g then Inr (field_val g) else Inl ValueError)"
    if "digit_run g" for g
    using that by (cases g) (auto simp: group_int_def py_int_def list_all_iff)
  have "parse_duration (Some str)
               = (if field_ok g1 \<and> field_ok g2 \<and> field_ok g3
                  then Inr (field_val g1 * 3600 + field_val g2 * 60 + field_val g3)
                  else Inl ValueError)"
    using str 1 2 3 gi[OF form(2)] gi[OF form(3)] gi[OF form(4)]
    by (simp add: parse_duration_def)
  with form nc show ?thesis by blast
qed

text \<open>
  C7, as amended. Every duration \<open>PT#H#M#S\<close>, with any of the three components left out
  and no component longer than 4300 digits, parses to
  hours * 3600 + minutes * 60 + seconds, where each number is the decimal value of its
  digits; in particular \<open>PT1H2M3S\<close> gives 3723, \<open>PT45S\<close> gives 45 and \<open>PT\<close> gives 0.
\<close>

theorem parse_duration_valid_form:
  assumes "field_ok h" "field_ok m" "field_ok s"
  shows "parse_duration (Some (iso_duration h m s))
           = Inr (field_val h * 3600 + field_val m * 60 + field_val s)
         \<and> parse_duration (Some ''PT1H2M3S'') = Inr 3723
         \<and> parse_duration (Some ''PT45S'') = Inr 45
         \<and> parse_duration (Some ''PT'') = Inr 0"
proof -
  have gen: "parse_duration (Some (iso_duration h' m' s'))
               = Inr (field_val h' * 3600 + field_val m' * 60 + field_val s')"
    if "field_ok h'" "field_ok m'" "field_ok s'" for h' m' s'
    using parse_duration_prefix[OF that, of "[]"] by simp
  have digs: "field_ok (Some ''1'')" "field_ok (Some ''2'')" "field_ok (Some ''3'')"
    "field_ok (Some ''45'')" "field_ok None"
    by (simp_all add: is_digit_def int_max_str_digits_def)
  have "parse_duration (Some ''PT1H2M3S'') = Inr 3723"
    using gen[OF digs(1,2,3)] by (simp add: iso_duration_def dec_val_def)
  moreover have "parse_duration (Some ''PT45S'') = Inr 45"
    using gen[OF digs(5,5,4)] by (simp add: iso_duration_def dec_val_def)
  moreover have "parse_duration (Some ''PT'') = Inr 0"
    using gen[OF digs(5,5,5)] by (simp add: iso_duration_def)
  ultimately show ?thesis using gen[OF assms] by simp
qed

theorem parse_duration_valid_form_witness:
  "field_ok (Some ''1'') \<and> field_ok (Some ''02'') \<and> field_ok None
   \<and> parse_duration (Some ''PT1H02M'') = Inr 3720"
proof -
  have ok: "field_ok (Some ''1'')" "field_ok (Some ''02'')" "field_ok None"
    by (simp_all add: is_digit_def int_max_str_digits_def)
  from parse_duration_valid_form[OF ok]
  have "parse_duration (Some ''PT1H02M'') = Inr 3720"
    by (simp add: iso_duration_def dec_val_def)
  with ok show ?thesis by simp
qed

text \<open>
  C7 as stated fails for a component of 4301 digits: the string is of the form
  \<open>PT#S\<close>, and \<open>int\<close> raises \<open>ValueError\<close> on the captured group.
\<close>

theorem parse_duration_long_component_raises:
  "parse_duration (Some (iso_duration None None (Some (replicate 4301 CHR ''1''))))
     = Inl ValueError"
proof -
  let ?ds = "replicate 4301 CHR ''1''"
  have d: "list_all is_digit ?ds" by (simp add: list_all_iff is_digit_def)
  have ne: "?ds \<noteq> []" by simp
  have h: "opt_group CHR ''H'' (?ds @ CHR ''S'' # []) = (None, ?ds @ CHR ''S'' # [])"
    by (rule opt_group_miss[OF d]) simp_all
  have m: "opt_group CHR ''M'' (?ds @ CHR ''S'' # []) = (None, ?ds @ CHR ''S'' # [])"
    by (rule opt_group_miss[OF d]) simp_all
  have s: "opt_group CHR ''S'' (?ds @ CHR ''S'' # []) = (Some ?ds, [])"
    by (rule opt_group_hit[OF ne d]) simp
  have g: "group_int (Some ?ds) = Inl ValueError"
    by (simp add: group_int_def py_int_def int_max_str_digits_def)
  have n: "group_int None = Inr 0" by (simp add: group_int_def)
  show ?thesis
    using h m s g n by (simp add: parse_duration_def iso_duration_def)
qed

text \<open>
  C8, at the input \<open>PT5Mxyz\<close>: the string is not a duration, and the function returns 300
  for it, not 0.
\<close>

theorem parse_duration_malformed_nonzero:
  "parse_duration (Some ''PT5Mxyz'') = Inr 300"
  by code_simp

text \<open>
  C9, as amended. The pattern is matched against a prefix of the input only. For a
  duration \<open>PT#H#M#S\<close> (components of at most 4300 digits) followed by text that does not
  continue it with a further component, the value of the duration is returned and the
  text is ignored: \<open>PT1H2M3Sjunk\<close> gives 3723. Every string that does not begin with
  \<open>PT\<close> gives 0.
\<close>

theorem parse_duration_matches_prefix:
  assumes "field_ok h" "field_ok m" "field_ok s"
      and "\<not> continues_with (later_letters h m s) t"
  shows "parse_duration (Some (iso_duration h m s @ t))
           = Inr (field_val h * 3600 + field_val m * 60 + field_val s)
         \<and> parse_duration (Some ''PT1H2M3Sjunk'') = Inr 3723
         \<and> (\<not> starts_with ''PT'' d \<longrightarrow> parse_duration (Some d) = Inr 0)"
proof -
  have digs: "field_ok (Some ''1'')" "field_ok (Some ''2'')" "field_ok (Some ''3'')"
    by (simp_all add: is_digit_def int_max_str_digits_def)
  have "parse_duration (Some ''PT1H2M3Sjunk'') = Inr 3723"
    using parse_duration_prefix[OF digs, of "''junk''"]
    by (simp add: iso_duration_def dec_val_def)
  then show ?thesis
    using parse_duration_prefix[OF assms] parse_duration_not_PT[of d] by simp
qed

theorem parse_duration_matches_prefix_witness:
  "field_ok (Some ''2'') \<and> field_ok None \<and> field_ok (Some ''30'') \<and> field_ok (Some ''5'')
   \<and> \<not> continues_with (later_letters (Some ''2'') None (Some ''30'')) ''99M and more''
   \<and> parse_duration (Some ''PT2H30S99M and more'') = Inr 7230
   \<and> \<not> continues_with (later_letters (Some ''2'') None None) ''30''
   \<and> parse_duration (Some ''PT2H30'') = Inr 7200
   \<and> \<not> continues_with (later_letters None (Some ''5'') None) ''3H''
   \<and> parse_duration (Some ''PT5M3H'') = Inr 300
   \<and> \<not> starts_with ''PT'' ''P1DT2H'' \<and> parse_duration (Some ''P1DT2H'') = Inr 0"
proof -
  have ok: "field_ok (Some ''2'')" "field_ok None" "field_ok (Some ''30'')" "field_ok (Some ''5'')"
    by (simp_all add: is_digit_def int_max_str_digits_def)
  have c1: "\<not> continues_with (later_letters (Some ''2'') None (Some ''30'')) ''99M and more''"
    by simp
  have c2: "\<not> continues_with (later_letters (Some ''2'') None None) ''30''"
    by (simp add: continues_with_def is_digit_def)
  have c3: "\<not> continues_with (later_letters None (Some ''5'') None) ''3H''"
    by (simp add: continues_with_def later_letters_def is_digit_def)
  have n: "\<not> starts_with ''PT'' ''P1DT2H''" by (simp add: starts_with_def)
  from parse_duration_matches_prefix[OF ok(1,2,3) c1, of "''P1DT2H''"] n
  have r1: "parse_duration (Some ''PT2H30S99M and more'') = Inr 7230
        \<and> parse_duration (Some ''P1DT2H'') = Inr 0"
    by (simp add: iso_duration_def dec_val_def)
  from parse_duration_matches_prefix[OF ok(1,2,2) c2]
  have r2: "parse_duration (Some ''PT2H30'') = Inr 7200"
    by (simp add: iso_duration_def dec_val_def)
  from parse_duration_matches_prefix[OF ok(2,4,2) c3]
  have r3: "parse_duration (Some ''PT5M3H'') = Inr 300"
    by (simp add: iso_duration_def dec_val_def)
  from ok c1 c2 c3 n r1 r2 r3 show ?thesis by simp
qed

text \<open>
  C9 as stated fails when the text after the duration is itself a further component:
  \<open>PT1H\<close> has the value 3600, and \<open>PT1H\<close> followed by \<open>30M\<close> gives 5400.
\<close>

theorem parse_duration_trailing_component_counts:
  "parse_duration (Some (iso_duration (Some ''1'') None None)) = Inr 3600
   \<and> parse_duration (Some (iso_duration (Some ''1'') None None @ ''30M'')) = Inr 5400"
  by code_simp

section \<open>Properties of credential rotation\<close>

lemma switch_api_key_next:
  assumes "current_key_index e + 1 < length (api_keys e)"
  shows "switch_api_key e = Inr (e\<lparr>current_key_index := current_key_index e + 1,
                                   youtube := api_keys e ! (current_key_index e + 1)\<rparr>)"
  using assms by (auto simp: switch_api_key_def Let_def)

lemma switch_api_key_wrap:
  assumes "current_key_index e + 1 = length (api_keys e)"
  shows "switch_api_key e = Inl SystemExit"
  using assms by (auto simp: switch_api_key_def Let_def)

text \<open>
  In \<open>YouTubeMetadataExtractor\<close>, as long as the cursor stays below the end of the pool
  every quota-exceeded response is one rotation, and the response that would wrap the
  cursor ends the process.
\<close>

lemma quota_run_rotates:
  assumes "current_key_index e + k < length (api_keys e)"
  shows "\<exists>e'. quota_run k e = (k, Inr e') \<and> api_keys e' = api_keys e
              \<and> current_key_index e' = current_key_index e + k"
  using assms
proof (induction k arbitrary: e)
  case 0
  then show ?case by simp
next
  case (Suc k)
  let ?e = "e\<lparr>current_key_index := current_key_index e + 1,
              youtube := api_keys e ! (current_key_index e + 1)\<rparr>"
  from Suc.prems have sw: "switch_api_key e = Inr ?e" by (intro switch_api_key_next) simp
  from Suc.prems have "current_key_index ?e + k < length (api_keys ?e)" by simp
  from Suc.IH[OF this] obtain e' where
    "quota_run k ?e = (k, Inr e')" "api_keys e' = api_keys e"
    "current_key_index e' = current_key_index e + 1 + k"
    by auto
  then show ?case using sw by simp
qed

lemma quota_run_exhausts:
  assumes "current_key_index e + Suc k = length (api_keys e)"
  shows "quota_run (Suc k) e = (k, Inl SystemExit)"
  using assms
proof (induction k arbitrary: e)
  case 0
  then show ?case by (simp add: switch_api_key_wrap)
next
  case (Suc k)
  let ?e = "e\<lparr>current_key_index := current_key_index e + 1,
              youtube := api_keys e ! (current_key_index e + 1)\<rparr>"
  from Suc.prems have sw: "switch_api_key e = Inr ?e" by (intro switch_api_key_next) simp
  from Suc.prems have "current_key_index ?e + Suc k = length (api_keys ?e)" by simp
  from Suc.IH[OF this] have "quota_run (Suc k) ?e = (k, Inl SystemExit)" .
  then show ?case using sw by (simp del: quota_run.simps(2) add: quota_run.simps(2)[of "Suc k" e])
qed

text \<open>
  For a pool of \<open>N \<ge> 1\<close> credentials with the cursor on the first one, \<open>N\<close> consecutive
  quota-exceeded responses make \<open>N - 1\<close> rotations in \<open>YouTubeMetadataExtractor\<close>, and the
  \<open>N\<close>th ends the process; fewer than \<open>N\<close> responses only rotate.
\<close>

lemma quota_run_pool:
  assumes "length (api_keys e) = N" "1 \<le> N" "current_key_index e = 0"
  shows "quota_run N e = (N - 1, Inl SystemExit)"
    and "k < N \<Longrightarrow> \<exists>e'. quota_run k e = (k, Inr e') \<and> current_key_index e' = k"
proof -
  from assms obtain k' where N: "N = Suc k'" by (cases N) auto
  with assms show "quota_run N e = (N - 1, Inl SystemExit)"
    using quota_run_exhausts[of e k'] by simp
  show "\<exists>e'. quota_run k e = (k, Inr e') \<and> current_key_index e' = k" if "k < N"
    using quota_run_rotates[of e k] that assms by auto
qed

text \<open>The earlier module \<open>test/vdata_old.py\<close> raises at the wrap as well.\<close>

lemma vdata_old_switch_api_key_wrap:
  assumes "key_index + 1 = length API_KEYS"
  shows "vdata_old_switch_api_key API_KEYS key_index = Inl KeysExhausted"
  using assms by (auto simp: vdata_old_switch_api_key_def Let_def)

text \<open>In \<open>vdata.py\<close> a run of any length only rotates: the cursor goes round the pool.\<close>

lemma vdata_quota_run_never_stops:
  assumes "i < length API_KEYS"
  shows "vdata_quota_run API_KEYS k i = (k, Inr ((i + k) mod length API_KEYS))"
  using assms
proof (induction k arbitrary: i)
  case 0
  then show ?case by simp
next
  case (Suc k)
  from Suc.prems have ne: "API_KEYS \<noteq> []" by auto
  have sw: "vdata_switch_api_key API_KEYS i = Inr ((i + 1) mod length API_KEYS)"
    using ne by (simp add: vdata_switch_api_key_def)
  from ne have "(i + 1) mod length API_KEYS < length API_KEYS" by simp
  from Suc.IH[OF this]
  have "vdata_quota_run API_KEYS k ((i + 1) mod length API_KEYS)
          = (k, Inr ((i + 1 + k) mod length API_KEYS))"
    by (simp add: mod_add_left_eq)
  then show ?case using sw by (simp add: add.commute add.left_commute)
qed

text \<open>
  C1, in \<open>vdata.switch_api_key\<close>, for a pool of two credentials with the cursor on the
  first: two consecutive quota-exceeded responses make two rotations, the cursor is
  back on the first credential, and no exhaustion is signalled.
\<close>

theorem vdata_switch_api_key_wraps_silently:
  "vdata_quota_run [''key1'', ''key2''] 2 0 = (2, Inr 0)"
  by code_simp

section \<open>Properties of playlist traversal\<close>

lemma item_ids_map_Some [simp]: "item_ids (map Some items) = Some items"
  by (induction items) simp_all

text \<open>
  A quota-exceeded response rotates the credential; the next call is made with the new
  key, the same continuation cursor and the identifiers collected so far.
\<close>

lemma playlist_loop_quota_step:
  assumes "call (youtube e) tok = Quota_exceeded"
      and "current_key_index e + 1 < length (api_keys e)" "retries < length (api_keys e)"
  shows "playlist_loop e video_ids tok retries (call # calls)
         = playlist_loop (e\<lparr>current_key_index := current_key_index e + 1,
                            youtube := api_keys e ! (current_key_index e + 1)\<rparr>)
             video_ids tok (retries + 1) calls"
  using assms by (simp add: switch_api_key_next)

lemma playlist_loop_served:
  assumes "listing tok = (items, nxt)"
  shows "playlist_loop e video_ids tok retries (serve listing # calls)
         = (if falsy nxt then Some (Inr (video_ids @ items, e))
            else playlist_loop e (video_ids @ items) nxt retries calls)"
  using assms by (simp add: serve_def)

text \<open>
  The loop invariant: with the identifiers collected so far in \<open>video_ids\<close>, the cursor at
  \<open>tok\<close>, and no more refusals ahead than credentials left, the loop returns \<open>video_ids\<close>
  followed by the items of the pages from \<open>tok\<close> on.
\<close>

lemma playlist_loop_pages:
  assumes "current_key_index e + quota_count qs < length (api_keys e)"
      and "retries + quota_count qs \<le> length (api_keys e)"
      and "pages_from listing tok (served_count qs) = Some pgs"
  shows "\<exists>e'. playlist_loop e video_ids tok retries (map (answer listing) qs)
           = Some (Inr (video_ids @ concat pgs, e'))
           \<and> api_keys e' = api_keys e"
  using assms
proof (induction qs arbitrary: e video_ids tok retries pgs)
  case Nil
  then show ?case by (simp add: served_count_def)
next
  case (Cons q qs)
  note prems = Cons.prems and IH = Cons.IH
  show ?case
  proof (cases q)
    case True
    let ?e = "e\<lparr>current_key_index := current_key_index e + 1,
                youtube := api_keys e ! (current_key_index e + 1)\<rparr>"
    have qc: "quota_count (q # qs) = Suc (quota_count qs)"
      using True by (simp add: quota_count_def)
    have sc: "served_count (q # qs) = served_count qs"
      using True by (simp add: served_count_def)
    have "playlist_loop e video_ids tok retries (refuse # map (answer listing) qs)
                = playlist_loop ?e video_ids tok (retries + 1) (map (answer listing) qs)"
      by (rule playlist_loop_quota_step[of refuse e tok retries])
        (use prems qc in \<open>auto simp: refuse_def\<close>)
    then have step: "playlist_loop e video_ids tok retries (map (answer listing) (q # qs))
                = playlist_loop ?e video_ids tok (retries + 1) (map (answer listing) qs)"
      using True by (simp add: answer_def)
    from IH[of ?e "retries + 1" tok pgs video_ids] prems qc sc
    obtain e' where "playlist_loop ?e video_ids tok (retries + 1) (map (answer listing) qs)
        = Some (Inr (video_ids @ concat pgs, e')) \<and> api_keys e' = api_keys ?e"
      by auto
    then show ?thesis using step by (auto simp del: playlist_loop.simps)
  next
    case False
    have qc: "quota_count (q # qs) = quota_count qs"
      using False by (simp add: quota_count_def)
    have sc: "served_count (q # qs) = Suc (served_count qs)"
      using False by (simp add: served_count_def)
    obtain items nxt where l: "listing tok = (items, nxt)" by (cases "listing tok")
    have step: "playlist_loop e video_ids tok retries (map (answer listing) (q # qs))
         = (if falsy nxt then Some (Inr (video_ids @ items, e))
            else playlist_loop e (video_ids @ items) nxt retries (map (answer listing) qs))"
      using False playlist_loop_served[of listing tok items nxt, OF l]
      by (simp add: answer_def)
    show ?thesis
    proof (cases "falsy nxt")
      case True
      with prems(3) sc l have "pgs = [items]" by simp
      with step True show ?thesis by (simp del: playlist_loop.simps)
    next
      case nf: False
      with prems(3) sc l obtain pgs' where
        p: "pages_from listing nxt (served_count qs) = Some pgs'" and pgs: "pgs = items # pgs'"
        by (auto split: option.splits)
      from IH[OF _ _ p, of e retries "video_ids @ items"] prems(1,2) qc
      obtain e' where "playlist_loop e (video_ids @ items) nxt retries (map (answer listing) qs)
          = Some (Inr ((video_ids @ items) @ concat pgs', e')) \<and> api_keys e' = api_keys e"
        by auto
      with step nf pgs show ?thesis by (simp del: playlist_loop.simps)
    qed
  qed
qed

text \<open>
  When the quota-exceeded response would wrap the cursor, the process exits, whatever was
  collected; another \<open>HttpError\<close> ends the traversal with what was collected.
\<close>

lemma playlist_loop_exhausted:
  assumes "call (youtube e) tok = Quota_exceeded"
      and "current_key_index e + 1 = length (api_keys e)"
  shows "playlist_loop e video_ids tok retries (call # calls) = Some (Inl SystemExit)"
  using assms by (simp add: switch_api_key_wrap)

lemma playlist_loop_other_error:
  assumes "call (youtube e) tok = Other_http_error"
  shows "playlist_loop e video_ids tok retries (call # calls) = Some (Inr (video_ids, e))"
  using assms by simp

text \<open>
  C2. A quota-exceeded response to a page fetch rotates the credential, and the next
  call fetches the page of the same continuation cursor, with the identifiers collected
  so far kept. For a listing whose pages from the first one are \<open>pgs\<close>, fetched with
  refusals for quota at any of the calls, fewer than the credentials left in the pool,
  the traversal returns the concatenation of the items of all pages in server order.
\<close>

theorem fetch_videos_from_playlist_rotation:
  assumes "current_key_index e + quota_count qs < length (api_keys e)"
      and "pages_from listing None (served_count qs) = Some pgs"
  shows "(\<exists>e'. fetch_videos_from_playlist e (map (answer listing) qs)
                 = Some (Inr (concat pgs, e')))
         \<and> (current_key_index e + 1 < length (api_keys e) \<and> retries < length (api_keys e)
              \<and> listing tok = (items, nxt)
              \<longrightarrow> playlist_loop e video_ids tok retries (refuse # serve listing # calls)
                    = (let e' = e\<lparr>current_key_index := current_key_index e + 1,
                                   youtube := api_keys e ! (current_key_index e + 1)\<rparr>
                       in if falsy nxt then Some (Inr (video_ids @ items, e'))
                          else playlist_loop e' (video_ids @ items) nxt (retries + 1) calls))"
proof -
  from assms(1) have "0 + quota_count qs \<le> length (api_keys e)" by simp
  from playlist_loop_pages[OF assms(1) this assms(2), of "[]"]
  have "\<exists>e'. fetch_videos_from_playlist e (map (answer listing) qs)
               = Some (Inr (concat pgs, e'))"
    by (auto simp: fetch_videos_from_playlist_def)
  moreover have "playlist_loop e video_ids tok retries (refuse # serve listing # calls)
                    = (let e' = e\<lparr>current_key_index := current_key_index e + 1,
                                   youtube := api_keys e ! (current_key_index e + 1)\<rparr>
                       in if falsy nxt then Some (Inr (video_ids @ items, e'))
                          else playlist_loop e' (video_ids @ items) nxt (retries + 1) calls)"
    if "current_key_index e + 1 < length (api_keys e)" "retries < length (api_keys e)"
      "listing tok = (items, nxt)"
  proof -
    let ?e = "e\<lparr>current_key_index := current_key_index e + 1,
                youtube := api_keys e ! (current_key_index e + 1)\<rparr>"
    have "refuse (youtube e) tok = Quota_exceeded" by (simp add: refuse_def)
    from playlist_loop_quota_step[of refuse e tok retries, OF this that(1,2)]
    have a: "playlist_loop e video_ids tok retries (refuse # serve listing # calls)
               = playlist_loop ?e video_ids tok (retries + 1) (serve listing # calls)" .
    have b: "playlist_loop ?e video_ids tok (retries + 1) (serve listing # calls)
               = (if falsy nxt then Some (Inr (video_ids @ items, ?e))
                  else playlist_loop ?e (video_ids @ items) nxt (retries + 1) calls)"
      by (rule playlist_loop_served[of listing tok items nxt, OF that(3)])
    show ?thesis unfolding Let_def a b ..
  qed
  ultimately show ?thesis by blast
qed

theorem fetch_videos_from_playlist_rotation_witness:
  "(let e = \<lparr>api_keys = [''k0'', ''k1'', ''k2''], current_key_index = 0, youtube = ''k0''\<rparr>;
        listing = (\<lambda>tok. if tok = None then ([''a'', ''b''], Some ''t1'')
                         else if tok = Some ''t1'' then ([''c''], Some ''t2'')
                         else ([''d''], None));
        qs = [False, True, False, True, False]
    in current_key_index e + quota_count qs < length (api_keys e)
       \<and> pages_from listing None (served_count qs) = Some [[''a'', ''b''], [''c''], [''d'']]
       \<and> (\<exists>e'. fetch_videos_from_playlist e (map (answer listing) qs)
                  = Some (Inr ([''a'', ''b'', ''c'', ''d''], e')))
       \<and> listing (Some ''t1'') = ([''c''], Some ''t2'')
       \<and> playlist_loop e [''a'', ''b''] (Some ''t1'') 0 [refuse, serve listing, serve listing]
           = playlist_loop (e\<lparr>current_key_index := 1, youtube := ''k1''\<rparr>)
               [''a'', ''b'', ''c''] (Some ''t2'') 1 [serve listing])"
proof -
  let ?e = "\<lparr>api_keys = [''k0'', ''k1'', ''k2''], current_key_index = 0, youtube = ''k0''\<rparr>"
  let ?l = "\<lambda>tok. if tok = None then ([''a'', ''b''], Some ''t1'')
                         else if tok = Some ''t1'' then ([''c''], Some ''t2'')
                         else ([''d''], None)"
  let ?qs = "[False, True, False, True, False]"
  have h1: "current_key_index ?e + quota_count ?qs < length (api_keys ?e)"
    by (simp add: quota_count_def)
  have h2: "pages_from ?l None (served_count ?qs) = Some [[''a'', ''b''], [''c''], [''d'']]"
    by code_simp
  have h3: "?l (Some ''t1'') = ([''c''], Some ''t2'')" by simp
  have h4: "current_key_index ?e + 1 < length (api_keys ?e) \<and> 0 < length (api_keys ?e)"
    by simp
  from fetch_videos_from_playlist_rotation[OF h1 h2, where retries = 0 and tok = "Some ''t1''"
      and items = "[''c'']" and nxt = "Some ''t2''" and video_ids = "[''a'', ''b'']"
      and calls = "[serve ?l]"] h3 h4
  have "(\<exists>e'. fetch_videos_from_playlist ?e (map (answer ?l) ?qs)
                  = Some (Inr ([''a'', ''b'', ''c'', ''d''], e')))
       \<and> playlist_loop ?e [''a'', ''b''] (Some ''t1'') 0 [refuse, serve ?l, serve ?l]
           = playlist_loop (?e\<lparr>current_key_index := 1, youtube := ''k1''\<rparr>)
               [''a'', ''b'', ''c''] (Some ''t2'') 1 [serve ?l]"
    by (simp add: falsy_def del: playlist_loop.simps)
  with h1 h2 h3 show ?thesis unfolding Let_def by blast
qed

section \<open>Properties of URL classification\<close>

lemma split_from_nonempty: "split_from sep acc s \<noteq> []"
  by (induction sep acc s rule: split_from.induct) auto

lemma py_last_split: "py_last (py_split sep s) = Inr (last (py_split sep s))"
  using split_from_nonempty[of sep "[]" s]
  by (simp add: py_last_def py_split_def split: list.splits)

text \<open>\<open>YouTubeMetadataExtractor.parse_url\<close> raises on no string, and gives the four examples.\<close>

lemma parse_url_total: "\<exists>r. parse_url url = Inr r"
  by (simp add: parse_url_def parse_video_url_def parse_playlist_url_def parse_channel_url_def
      py_last_split split: option.splits)

lemma parse_url_unrelated:
  assumes "\<not> contains ''youtube.com/watch'' url" "\<not> contains ''youtu.be'' url"
    "\<not> contains ''youtube.com/playlist'' url" "\<not> contains ''youtube.com/channel'' url"
    "\<not> contains ''@'' url"
  shows "parse_url url = Inr None"
  using assms by (simp add: parse_url_def)

lemma parse_url_examples:
  "parse_url ''https://www.youtube.com/watch?v=abc123'' = Inr (Some (Video_info ''abc123''))"
  "parse_url ''https://youtu.be/abc123'' = Inr (Some (Video_info ''abc123''))"
  "parse_url ''https://www.youtube.com/playlist?list=XYZ'' = Inr (Some (Playlist_info ''XYZ''))"
  "parse_url ''not a link'' = Inr None"
  by code_simp+

lemma starts_with_here: "starts_with q (q @ rest)"
  by (simp add: starts_with_def)

text \<open>
  The earlier module \<open>test/vdata_old.py\<close> indexes the result of \<open>split\<close>; the test before
  each index makes it safe, so the function raises on no string either.
\<close>

lemma contains_here: "contains q (q @ rest)"
proof (cases "q @ rest")
  case Nil
  then show ?thesis by simp
next
  case (Cons c cs)
  then show ?thesis using starts_with_here[of q rest] by simp
qed

lemma contains_later: "contains q (p @ q @ rest)"
  by (induction p) (auto simp: contains_here)

lemma contains_Cons: "contains q cs \<Longrightarrow> contains q (c # cs)"
  by simp

lemma starts_with_append: "starts_with p s \<Longrightarrow> \<exists>rest. s = p @ rest"
  by (metis append_take_drop_id starts_with_def)

lemma contains_append_right:
  assumes "contains (p @ q) s"
  shows "contains q s"
  using assms
proof (induction s)
  case Nil
  then show ?case by simp
next
  case (Cons c cs)
  show ?case
  proof (cases "starts_with (p @ q) (c # cs)")
    case True
    then obtain rest where "c # cs = p @ q @ rest" using starts_with_append by fastforce
    then show ?thesis using contains_later[of q p rest] by simp
  next
    case False
    with Cons show ?thesis by simp
  qed
qed

lemma split_from_two:
  assumes "sep \<noteq> []" "contains sep s"
  shows "2 \<le> length (split_from sep acc s)"
  using assms
proof (induction sep acc s rule: split_from.induct)
  case (1 sep acc)
  then show ?case by simp
next
  case (2 sep acc c cs)
  show ?case
  proof (cases "starts_with sep (c # cs)")
    case True
    then show ?thesis
      using 2(3) split_from_nonempty[of sep "[]" "drop (length sep - 1) cs"]
      by (cases "split_from sep [] (drop (length sep - 1) cs)") auto
  next
    case False
    with 2 show ?thesis by simp
  qed
qed

lemma after_total:
  assumes "sep \<noteq> []" "contains sep url"
  shows "\<exists>r. after sep url = Inr r"
  using split_from_two[OF assms, of "[]"] by (simp add: after_def py_index_def py_split_def)

lemma after_before_total:
  assumes "a \<noteq> []" "contains a url"
  shows "\<exists>r. after_before a b url = Inr r"
proof -
  from after_total[OF assms] obtain rest where "after a url = Inr rest" by blast
  moreover have "0 < length (py_split b rest)"
    using split_from_nonempty[of b "[]" rest] by (simp add: py_split_def)
  ultimately show ?thesis by (simp add: after_before_def py_index_def)
qed

lemma tagged_total: "\<exists>r. x = Inr r \<Longrightarrow> \<exists>r. tagged t x = Inr r"
  by (auto simp: tagged_def)

lemma vdata_old_extract_identifier_total: "\<exists>r. vdata_old_extract_identifier url = Inr r"
proof -
  have pl: "contains ''playlist?list='' url \<Longrightarrow> contains ''list='' url"
    using contains_append_right[of "''playlist?''" "''list=''" url] by simp
  show ?thesis
    unfolding vdata_old_extract_identifier_def
    by (auto intro!: tagged_total after_total after_before_total pl)
qed

lemma vdata_old_extract_identifier_examples:
  "vdata_old_extract_identifier ''https://www.youtube.com/watch?v=abc123'' = Inr (Some (''abc123'', Video))"
  "vdata_old_extract_identifier ''https://youtu.be/abc123'' = Inr (Some (''abc123'', Video))"
  "vdata_old_extract_identifier ''https://www.youtube.com/playlist?list=XYZ'' = Inr (Some (''XYZ'', Playlist))"
  "vdata_old_extract_identifier ''not a link'' = Inr None"
  by code_simp+

text \<open>\<open>vdata.extract_identifier\<close> agrees on three of the four examples.\<close>

lemma extract_identifier_examples:
  "extract_identifier ''https://www.youtube.com/watch?v=abc123'' = Some (''abc123'', Video)"
  "extract_identifier ''https://www.youtube.com/playlist?list=XYZ'' = Some (''XYZ'', Playlist)"
  "extract_identifier ''not a link'' = None"
  by code_simp+

text \<open>
  C3, in \<open>vdata.extract_identifier\<close>, at the input \<open>https://youtu.be/abc123\<close>: none of the
  four patterns matches, and the result is the pair \<open>(None, None)\<close>, not the video
  \<open>abc123\<close>.
\<close>

theorem extract_identifier_misses_short_link:
  "extract_identifier ''https://youtu.be/abc123'' = None"
  by code_simp

section \<open>Properties of consolidation\<close>

lemma keep_first_fixed:
  assumes "distinct (map key rs)" "set (map key rs) \<inter> set seen = {}"
  shows "keep_first key seen rs = rs"
  using assms by (induction rs arbitrary: seen) auto

lemma keep_first_keys:
  "set (map key (keep_first key seen rs)) = set (map key rs) - set seen"
  by (induction rs arbitrary: seen) auto

lemma keep_first_distinct: "distinct (map key (keep_first key seen rs))"
proof (induction rs arbitrary: seen)
  case Nil
  then show ?case by simp
next
  case (Cons r rs)
  have "key r \<notin> set (map key (keep_first key (key r # seen) rs))"
    unfolding keep_first_keys by simp
  with Cons show ?case by simp
qed

lemma keep_first_idem: "keep_first key [] (keep_first key [] rs) = keep_first key [] rs"
  by (rule keep_first_fixed) (simp_all add: keep_first_distinct)

lemma keep_first_subseq: "set (keep_first key seen rs) \<subseteq> set rs"
  by (induction rs arbitrary: seen) auto

lemma drop_duplicates_columns [simp]: "columns (drop_duplicates k df) = columns df"
  by (simp add: drop_duplicates_def)

lemma drop_duplicates_idem: "drop_duplicates k (drop_duplicates k df) = drop_duplicates k df"
  by (simp add: drop_duplicates_def keep_first_idem)

lemma deduplicate_dataframe_idem:
  "deduplicate_dataframe (deduplicate_dataframe df k) k = deduplicate_dataframe df k"
  by (simp add: deduplicate_dataframe_def drop_duplicates_idem)

lemma keep_first_AAB:
  assumes "key r1 = a" "key r2 = a" "key r3 = b" "a \<noteq> b"
  shows "keep_first key [] [r1, r2, r3] = [r1, r3]"
  using assms by auto

text \<open>Of the rows with one key, the first is the one retained.\<close>

lemma keep_first_find:
  "find (\<lambda>r. key r = k) (keep_first key seen rs)
     = (if k \<in> set seen then None else find (\<lambda>r. key r = k) rs)"
  by (induction rs arbitrary: seen) auto

text \<open>
  C4. A table whose rows have the Video IDs \<open>[a, a, b]\<close> is consolidated to its first and
  third row: the first-seen row of \<open>a\<close> is retained. Consolidating the result of a
  consolidation, of any table and for any key column, returns it unchanged.
\<close>

theorem deduplicate_dataframe_first_seen:
  assumes "''Video ID'' \<in> set (columns df)"
      and "rows df = [r1, r2, r3]"
      and "cell (columns df) ''Video ID'' r1 = Some a"
      and "cell (columns df) ''Video ID'' r2 = Some a"
      and "cell (columns df) ''Video ID'' r3 = Some b"
      and "a \<noteq> b"
  shows "rows (deduplicate_dataframe df ''Video ID'') = [r1, r3]
         \<and> deduplicate_dataframe (deduplicate_dataframe df' k) k = deduplicate_dataframe df' k"
proof -
  have "keep_first (cell (columns df) ''Video ID'') [] [r1, r2, r3] = [r1, r3]"
    using assms(3-6) by simp
  with assms(1,2) have "rows (deduplicate_dataframe df ''Video ID'') = [r1, r3]"
    by (simp add: deduplicate_dataframe_def drop_duplicates_def)
  then show ?thesis by (simp add: deduplicate_dataframe_idem)
qed

theorem deduplicate_dataframe_first_seen_witness:
  "(let df = \<lparr>columns = [''Video ID'', ''Title''],
               rows = [[''A'', ''first''], [''A'', ''second''], [''B'', ''third'']]\<rparr>
    in ''Video ID'' \<in> set (columns df)
       \<and> cell (columns df) ''Video ID'' [''A'', ''first''] = Some ''A''
       \<and> cell (columns df) ''Video ID'' [''A'', ''second''] = Some ''A''
       \<and> cell (columns df) ''Video ID'' [''B'', ''third''] = Some ''B''
       \<and> ''A'' \<noteq> ''B''
       \<and> rows (deduplicate_dataframe df ''Video ID'') = [[''A'', ''first''], [''B'', ''third'']]
       \<and> deduplicate_dataframe (deduplicate_dataframe df ''Video ID'') ''Video ID''
           = deduplicate_dataframe df ''Video ID'')"
proof -
  define df where "df = \<lparr>columns = [''Video ID'', ''Title''],
               rows = [[''A'', ''first''], [''A'', ''second''], [''B'', ''third'']]\<rparr>"
  have h1: "''Video ID'' \<in> set (columns df)" by (simp add: df_def)
  have h2: "rows df = [[''A'', ''first''], [''A'', ''second''], [''B'', ''third'']]"
    by (simp add: df_def)
  have h3: "cell (columns df) ''Video ID'' [''A'', ''first''] = Some ''A''"
    by (simp add: df_def cell_def)
  have h4: "cell (columns df) ''Video ID'' [''A'', ''second''] = Some ''A''"
    by (simp add: df_def cell_def)
  have h5: "cell (columns df) ''Video ID'' [''B'', ''third''] = Some ''B''"
    by (simp add: df_def cell_def)
  have h6: "''A'' \<noteq> ''B''" by simp
  from deduplicate_dataframe_first_seen[OF h1 h2 h3 h4 h5 h6, of df "''Video ID''"] h1 h3 h4 h5 h6
  show ?thesis unfolding Let_def df_def by blast
qed

section \<open>Properties of the incremental fetch\<close>

text \<open>
  \<open>vdata.get_video_metadata\<close>: the attempts on one batch. A batch whose calls all fail
  is attempted three times, with a sleep of 5 seconds after the first and the second
  failure, adds nothing to \<open>video_data\<close>, and the loop goes on with the batches after it.
  A response whose dictionaries can all be built ends the attempts.
\<close>

lemma append_items_all:
  assumes "build_all mk items = Some rs"
  shows "append_items mk items video_data = (video_data @ rs, True)"
  using assms
  by (induction items arbitrary: video_data rs) (auto split: option.splits)

lemma retry_loop_all_fail:
  assumes "fails (execute 0)" "fails (execute 1)" "fails (execute 2)"
  shows "retry_loop mk execute b 3 video_data trace
           = (video_data, trace @ [Execute b, Sleep 5, Execute b, Sleep 5, Execute b])"
proof -
  have 3: "(3::nat) = Suc (Suc (Suc 0))" by simp
  show ?thesis
    using assms unfolding 3
    by (cases "execute 0"; cases "execute 1"; cases "execute 2") (simp_all add: numeral_2_eq_2)
qed

lemma metadata_loop_skips:
  assumes "fails (execute i 0)" "fails (execute i 1)" "fails (execute i 2)"
  shows "metadata_loop mk execute video_ids (i # offsets) video_data trace
           = metadata_loop mk execute video_ids offsets video_data
               (trace @ [Execute (batch_at video_ids i), Sleep 5,
                         Execute (batch_at video_ids i), Sleep 5,
                         Execute (batch_at video_ids i)])"
  using retry_loop_all_fail[OF assms, of mk "batch_at video_ids i" video_data trace]
  by simp

lemma retry_loop_first:
  assumes "execute 0 = Items items" "build_all mk items = Some rs"
  shows "retry_loop mk execute b 3 video_data trace
           = (video_data @ rs, trace @ [Execute b])"
  using assms append_items_all[OF assms(2), of video_data] by (simp add: numeral_3_eq_3)

lemma retry_loop_second:
  assumes "fails (execute 0)" "execute 1 = Items items" "build_all mk items = Some rs"
  shows "retry_loop mk execute b 3 video_data trace
           = (video_data @ rs, trace @ [Execute b, Sleep 5, Execute b])"
  using assms append_items_all[OF assms(3), of video_data]
  by (cases "execute 0") (simp_all add: numeral_3_eq_3)

lemma retry_loop_third:
  assumes "fails (execute 0)" "fails (execute 1)" "execute 2 = Items items"
    "build_all mk items = Some rs"
  shows "retry_loop mk execute b 3 video_data trace
           = (video_data @ rs, trace @ [Execute b, Sleep 5, Execute b, Sleep 5, Execute b])"
  using assms append_items_all[OF assms(4), of video_data]
  by (cases "execute 0"; cases "execute 1") (simp_all add: numeral_3_eq_3 numeral_2_eq_2)

text \<open>
  When building a dictionary raises after others were appended, the attempt counts as
  failed and what was appended stays: a batch \<open>[a]\<close> whose response holds a good item and
  one that cannot be built uses its three attempts and leaves the good record three
  times.
\<close>

lemma retry_loop_keeps_partial_appends:
  "get_video_metadata (\<lambda>item. if item = ''bad'' then None else Some item)
     (\<lambda>i a. Items [''r1'', ''bad'']) [''a'']
   = ([''r1'', ''r1'', ''r1''],
      [Execute [''a''], Sleep 5, Execute [''a''], Sleep 5, Execute [''a'']])"
  by code_simp

text \<open>
  \<open>YouTubeMetadataExtractor\<close>: a batch is attempted once. An \<open>HttpError\<close> adds nothing to
  \<open>metadata\<close> and the loop goes on; a quota-exceeded error also moves the cursor, and
  ends the process when the cursor wraps.
\<close>

lemma fetch_batches_http_error:
  assumes "execute i = Detail_http_error"
  shows "fetch_batches mk execute ids (i # offsets) e metadata trace
           = fetch_batches mk execute ids offsets e metadata (trace @ [Execute (batch_at ids i)])"
  using assms by (simp add: fetch_video_metadata_batch_def)

lemma fetch_batches_quota_rotates:
  assumes "execute i = Detail_quota_exceeded" "current_key_index e + 1 < length (api_keys e)"
  shows "fetch_batches mk execute ids (i # offsets) e metadata trace
           = fetch_batches mk execute ids offsets
               (e\<lparr>current_key_index := current_key_index e + 1,
                  youtube := api_keys e ! (current_key_index e + 1)\<rparr>)
               metadata (trace @ [Execute (batch_at ids i)])"
  using assms by (simp add: fetch_video_metadata_batch_def switch_api_key_next)

lemma fetch_batches_quota_exits:
  assumes "execute i = Detail_quota_exceeded" "current_key_index e + 1 = length (api_keys e)"
  shows "fetch_batches mk execute ids (i # offsets) e metadata trace
           = (trace @ [Execute (batch_at ids i)], Inl SystemExit)"
  using assms by (simp add: fetch_video_metadata_batch_def switch_api_key_wrap)

text \<open>
  The same two batches in \<open>vdata.get_video_metadata\<close>: the failing batch is attempted
  three times, with two sleeps of 5 seconds.
\<close>

lemma get_video_metadata_three_attempts:
  "get_video_metadata Some (\<lambda>i a. if i = 0 then Detail_http_error else Items [''r''])
     (replicate 51 ''v'')
   = ([''r''], [Execute (replicate 50 ''v''), Sleep 5, Execute (replicate 50 ''v''), Sleep 5,
                Execute (replicate 50 ''v''), Execute [''v'']])"
  by code_simp

text \<open>
  C5, in \<open>YouTubeMetadataExtractor\<close>, for two batches of which the first fails with an
  \<open>HttpError\<close> that is not quota-exceeded: the detail call of the first batch is made
  once, there is no sleep and no second attempt, and the run goes on with the second
  batch.
\<close>

theorem fetch_video_metadata_batch_single_attempt:
  "process_urls_fetch Some (\<lambda>i. if i = 0 then Detail_http_error else Items [''r''])
     (replicate 51 ''v'') \<lparr>api_keys = [''k0''], current_key_index = 0, youtube = ''k0''\<rparr>
   = ([Execute (replicate 50 ''v''), Execute [''v'']],
      Inr ([''r''], \<lparr>api_keys = [''k0''], current_key_index = 0, youtube = ''k0''\<rparr>))"
  by code_simp

section \<open>Properties of the known-identifier filter\<close>








text \<open>
  C10. When \<open>metadata_file\<close> does not exist, \<open>get_existing_video_ids\<close> returns the empty
  set and does not raise, whatever reading a file would do, and step 2 of
  \<open>process_urls\<close> then keeps every candidate.
\<close>

theorem get_existing_video_ids_absent:
  assumes "files metadata_file = None"
  shows "get_existing_video_ids read_video_ids files metadata_file = Inr {}
         \<and> (get_existing_video_ids read_video_ids files metadata_file = Inr existing_video_ids
              \<and> new_video_ids all_video_ids (strings_in existing_video_ids) result
            \<longrightarrow> set result = set all_video_ids)"
  using assms by (auto simp: get_existing_video_ids_def new_video_ids_def strings_in_def)

theorem get_existing_video_ids_absent_witness:
  "Map.empty ''metadata.csv'' = (None :: string option)
   \<and> get_existing_video_ids (\<lambda>content. Inr [Py_str content]) Map.empty ''metadata.csv'' = Inr {}
   \<and> new_video_ids [''a'', ''b'', ''a''] (strings_in {}) [''b'', ''a'']
   \<and> set [''b'', ''a''] = set [''a'', ''b'', ''a'']"
proof -
  have h: "Map.empty ''metadata.csv'' = (None :: string option)" by simp
  have n: "new_video_ids [''a'', ''b'', ''a''] (strings_in {}) [''b'', ''a'']"
    by (auto simp: new_video_ids_def strings_in_def)
  from get_existing_video_ids_absent[OF h, where read_video_ids = "\<lambda>content. Inr [Py_str content]"
      and existing_video_ids = "{}"
      and all_video_ids = "[''a'', ''b'', ''a'']" and result = "[''b'', ''a'']"] n
  have "get_existing_video_ids (\<lambda>content. Inr [Py_str content]) Map.empty ''metadata.csv'' = Inr {}
        \<and> set [''b'', ''a''] = set [''a'', ''b'', ''a'']"
    by blast
  with h n show ?thesis by blast
qed

end
